theory Spec2Isabelle
  imports Main
begin

section \<open>Errors\<close>

text \<open>
  The exceptions the modelled code can raise. \<open>IndexError\<close> is a list or tensor index out
  of range, \<open>KeyError\<close> a dictionary lookup of a missing key, \<open>RuntimeError\<close> a failure
  inside one of the numeric primitives (module \<open>layers\<close> and the tensor library).
\<close>

datatype error = IndexError | KeyError | RuntimeError

text \<open>
  Python's \<open>xs[i]\<close> on a sequence: a negative index counts from the end, and an index
  outside \<open>-len(xs) \<le> i < len(xs)\<close> raises.
\<close>

definition getitem :: "'a list \<Rightarrow> int \<Rightarrow> error + 'a" where
  "getitem xs i =
     (if 0 \<le> i \<and> i < int (length xs) then Inr (xs ! nat i)
      else if i < 0 \<and> - int (length xs) \<le> i then Inr (xs ! nat (int (length xs) + i))
      else Inl IndexError)"

section \<open>Vocab\<close>

text \<open>
  \<open>class Vocab\<close>: the list \<open>num_to_word\<close> and the dictionary \<open>word_to_num\<close>.
\<close>

record Vocab =
  num_to_word :: "string list"
  word_to_num :: "string \<Rightarrow> nat option"

text \<open>
  \<open>Vocab.__init__\<close>. The source builds \<open>num_to_word = list(words)\<close> from the set
  \<open>{'<BOS>', '<EOS>', '<UNK>'}\<close>; the order in which Python iterates over a set of strings
  is not fixed, so the constructor takes that order as its argument \<open>words\<close>.
  \<open>words_order\<close> says that the argument is one of the six possible orders.
  The dictionary comprehension over \<open>enumerate(self.num_to_word)\<close> is the left fold.
\<close>

definition words_order :: "string list \<Rightarrow> bool" where
  "words_order words \<longleftrightarrow>
     distinct words \<and> set words = {''<BOS>'', ''<EOS>'', ''<UNK>''}"

definition Vocab_init :: "string list \<Rightarrow> Vocab" where
  "Vocab_init words =
     \<lparr>num_to_word = words,
      word_to_num = foldl (\<lambda>d (num, word). d(word \<mapsto> num)) Map.empty (enumerate 0 words)\<rparr>"

text \<open>\<open>Vocab.__contains__\<close>, \<open>Vocab.__len__\<close>.\<close>

definition contains :: "Vocab \<Rightarrow> string \<Rightarrow> bool" where
  "contains self word \<longleftrightarrow> word_to_num self word \<noteq> None"

definition len :: "Vocab \<Rightarrow> nat" where
  "len self = length (num_to_word self)"

text \<open>\<open>Vocab.add\<close>: returns at once when the word is present, else appends.\<close>

definition add :: "Vocab \<Rightarrow> string \<Rightarrow> Vocab" where
  "add self word =
     (if contains self word then self
      else (let num = length (num_to_word self)
            in \<lparr>num_to_word = num_to_word self @ [word],
                word_to_num = (word_to_num self)(word \<mapsto> num)\<rparr>))"

text \<open>
  \<open>v |= ws\<close> is \<open>MutableSet.__ior__\<close>, which calls \<open>add\<close> on each element in turn.
\<close>

definition ior :: "Vocab \<Rightarrow> string list \<Rightarrow> Vocab" where
  "ior self ws = foldl add self ws"

text \<open>
  \<open>Vocab.numberize\<close>. The fallback \<open>self.word_to_num['<UNK>']\<close> is a dictionary
  subscript, which raises \<open>KeyError\<close> when the key is missing.
\<close>

definition numberize :: "Vocab \<Rightarrow> string \<Rightarrow> error + nat" where
  "numberize self word =
     (case word_to_num self word of
        Some num \<Rightarrow> Inr num
      | None \<Rightarrow> (case word_to_num self ''<UNK>'' of
                   Some unk \<Rightarrow> Inr unk
                 | None \<Rightarrow> Inl KeyError))"

text \<open>\<open>Vocab.denumberize\<close>: \<open>self.num_to_word[num]\<close>.\<close>

definition denumberize :: "Vocab \<Rightarrow> int \<Rightarrow> error + string" where
  "denumberize self num = getitem (num_to_word self) num"

section \<open>Numeric primitives\<close>

text \<open>
  The tensor operations come from outside \<open>model2.py\<close>: \<open>attention\<close> from the module
  \<open>layers\<close>, and \<open>torch.argmax(o).item()\<close>, the subscript \<open>o[enum]\<close> and the addition
  in \<open>logprob += o[enum]\<close> from the tensor library. They are parameters of the model,
  and each may fail. A tensor of shape \<open>n,d\<close> is a list of \<open>n\<close> rows of type \<open>'vec\<close>;
  \<open>'val\<close> is what the output layer returns, \<open>'o\<close> a vector of log-probabilities and
  \<open>'s\<close> a scalar.
\<close>

record ('vec, 'val, 'o, 's) runtime =
  attention :: "'vec \<Rightarrow> 'vec list \<Rightarrow> 'val \<Rightarrow> error + 'o"
  argmax :: "'o \<Rightarrow> error + int"
  subscript :: "'o \<Rightarrow> int \<Rightarrow> error + 's"
  fzero :: "'s"
  fadd :: "'s \<Rightarrow> 's \<Rightarrow> 's"

section \<open>Encoder\<close>

text \<open>
  \<open>class Encoder\<close>: the field \<open>emb\<close> is an \<open>Embedding\<close> layer of the module \<open>layers\<close>,
  a learned function from a tensor of word numbers to their encodings.
\<close>

record 'vec Encoder =
  emb :: "nat list \<Rightarrow> error + 'vec list"

definition sequence :: "'vec Encoder \<Rightarrow> nat list \<Rightarrow> error + 'vec list" where
  "sequence self fnums = emb self fnums"

section \<open>Decoder\<close>

text \<open>
  \<open>class Decoder\<close>: \<open>maxlen\<close>, the position tables \<open>fpos\<close> and \<open>epos\<close>, and the output
  layer \<open>out\<close> (a \<open>SoftmaxLayer\<close> of the module \<open>layers\<close>).
\<close>

record ('vec, 'val) Decoder =
  maxlen :: nat
  fpos :: "'vec list"
  epos :: "'vec list"
  out :: "'vec list \<Rightarrow> error + 'val"

text \<open>
  What \<open>Decoder.__init__\<close> establishes and training keeps: \<open>maxlen\<close> is 100 and both
  position tables have \<open>maxlen\<close> rows.
\<close>

definition Decoder_shape :: "('vec, 'val) Decoder \<Rightarrow> bool" where
  "Decoder_shape self \<longleftrightarrow>
     maxlen self = 100 \<and> length (fpos self) = maxlen self \<and> length (epos self) = maxlen self"

text \<open>\<open>Decoder.start\<close>.\<close>

definition start :: "('vec, 'val) Decoder \<Rightarrow> int" where
  "start self = 0"

text \<open>
  \<open>Decoder.step\<close>. The subscript \<open>self.epos[state]\<close> raises when \<open>state\<close> is out of
  range; the slice \<open>self.fpos[:flen]\<close> never does. The argument \<open>enum\<close> is not read.
\<close>

definition step ::
  "('vec, 'val, 'o, 's) runtime \<Rightarrow> ('vec, 'val) Decoder \<Rightarrow> 'vec list \<Rightarrow> int \<Rightarrow> int
     \<Rightarrow> error + ('o \<times> int)" where
  "step R self fencs state enum =
     (let flen = length fencs in
      case out self fencs of
        Inl e \<Rightarrow> Inl e
      | Inr v \<Rightarrow>
          (case getitem (epos self) state of
             Inl e \<Rightarrow> Inl e
           | Inr q \<Rightarrow>
               (let k = take flen (fpos self) in
                case attention R q k v of
                  Inl e \<Rightarrow> Inl e
                | Inr o' \<Rightarrow> Inr (o', state + 1))))"

section \<open>Model\<close>

text \<open>
  \<open>class Model\<close>: its own copies \<open>fvocab\<close> and \<open>evocab\<close> of the vocabularies, the
  encoder and the decoder. (The empty parameter \<open>dummy\<close> only names the device.)
\<close>

record ('vec, 'val) Model =
  fvocab :: Vocab
  evocab :: Vocab
  enc :: "'vec Encoder"
  dec :: "('vec, 'val) Decoder"

text \<open>
  The methods of \<open>Model\<close> read the names \<open>fvocab\<close> and \<open>evocab\<close> without \<open>self.\<close>:
  these are the variables of the module, bound by the main program. The model passes
  them as an environment.
\<close>

record globals =
  global_fvocab :: Vocab
  global_evocab :: Vocab

text \<open>A list comprehension whose element expression can raise.\<close>

fun comprehension :: "('a \<Rightarrow> error + 'b) \<Rightarrow> 'a list \<Rightarrow> error + 'b list" where
  "comprehension f [] = Inr []"
| "comprehension f (x # xs) =
     (case f x of
        Inl e \<Rightarrow> Inl e
      | Inr y \<Rightarrow> (case comprehension f xs of Inl e \<Rightarrow> Inl e | Inr ys \<Rightarrow> Inr (y # ys)))"

text \<open>
  The loop of \<open>Model.logprob\<close>, \<open>for i in range(len(ewords))\<close>, as a recursion over the
  words still to come. Beside the result it returns the log of the calls of
  \<open>self.dec.step\<close>: the state passed to each call, in order.
\<close>

fun logprob_loop ::
  "('vec, 'val, 'o, 's) runtime \<Rightarrow> ('vec, 'val) Decoder \<Rightarrow> Vocab \<Rightarrow> 'vec list \<Rightarrow> string list
     \<Rightarrow> int \<Rightarrow> int \<Rightarrow> 's \<Rightarrow> int list \<times> (error + 's)" where
  "logprob_loop R d ev fencs [] h enum logprob = ([], Inr logprob)"
| "logprob_loop R d ev fencs (eword # rest) h enum logprob =
     (case step R d fencs h enum of
        Inl e \<Rightarrow> ([h], Inl e)
      | Inr (o', h') \<Rightarrow>
          (case numberize ev eword of
             Inl e \<Rightarrow> ([h], Inl e)
           | Inr enum' \<Rightarrow>
               (case subscript R o' (int enum') of
                  Inl e \<Rightarrow> ([h], Inl e)
                | Inr x \<Rightarrow>
                    (case logprob_loop R d ev fencs rest h' (int enum') (fadd R logprob x) of
                       (hs, r) \<Rightarrow> (h # hs, r)))))"

definition logprob_run ::
  "('vec, 'val, 'o, 's) runtime \<Rightarrow> globals \<Rightarrow> ('vec, 'val) Model \<Rightarrow> string list \<Rightarrow> string list
     \<Rightarrow> int list \<times> (error + 's)" where
  "logprob_run R G self fwords ewords =
     (case comprehension (numberize (global_fvocab G)) fwords of
        Inl e \<Rightarrow> ([], Inl e)
      | Inr fnums \<Rightarrow>
          (case sequence (enc self) fnums of
             Inl e \<Rightarrow> ([], Inl e)
           | Inr fencs \<Rightarrow>
               (let h = start (dec self) in
                case numberize (global_evocab G) ''<BOS>'' of
                  Inl e \<Rightarrow> ([], Inl e)
                | Inr enum \<Rightarrow>
                    logprob_loop R (dec self) (global_evocab G) fencs ewords h (int enum)
                      (fzero R))))"

text \<open>\<open>Model.logprob\<close>, and the states it passes to \<open>Decoder.step\<close>.\<close>

definition logprob ::
  "('vec, 'val, 'o, 's) runtime \<Rightarrow> globals \<Rightarrow> ('vec, 'val) Model \<Rightarrow> string list \<Rightarrow> string list
     \<Rightarrow> error + 's" where
  "logprob R G self fwords ewords = snd (logprob_run R G self fwords ewords)"

definition logprob_states ::
  "('vec, 'val, 'o, 's) runtime \<Rightarrow> globals \<Rightarrow> ('vec, 'val) Model \<Rightarrow> string list \<Rightarrow> string list
     \<Rightarrow> int list" where
  "logprob_states R G self fwords ewords = fst (logprob_run R G self fwords ewords)"

text \<open>
  The loop of \<open>Model.translate\<close>, \<open>for i in range(100)\<close>: the first argument after the
  encodings counts the iterations left. As above, the first component of the result
  logs the states passed to \<open>self.dec.step\<close>.
\<close>

fun translate_loop ::
  "('vec, 'val, 'o, 's) runtime \<Rightarrow> ('vec, 'val) Decoder \<Rightarrow> Vocab \<Rightarrow> 'vec list \<Rightarrow> nat
     \<Rightarrow> int \<Rightarrow> int \<Rightarrow> int list \<Rightarrow> int list \<times> (error + int list)" where
  "translate_loop R d ev fencs 0 h enum ewords = ([], Inr ewords)"
| "translate_loop R d ev fencs (Suc n) h enum ewords =
     (case step R d fencs h enum of
        Inl e \<Rightarrow> ([h], Inl e)
      | Inr (o', h') \<Rightarrow>
          (case argmax R o' of
             Inl e \<Rightarrow> ([h], Inl e)
           | Inr enum' \<Rightarrow>
               (case denumberize ev enum' of
                  Inl e \<Rightarrow> ([h], Inl e)
                | Inr w \<Rightarrow>
                    if w = ''<EOS>'' then ([h], Inr ewords)
                    else (case translate_loop R d ev fencs n h' enum' (ewords @ [enum']) of
                            (hs, r) \<Rightarrow> (h # hs, r)))))"

definition translate_run ::
  "('vec, 'val, 'o, 's) runtime \<Rightarrow> globals \<Rightarrow> ('vec, 'val) Model \<Rightarrow> string list
     \<Rightarrow> int list \<times> (error + string list)" where
  "translate_run R G self fwords =
     (case comprehension (numberize (global_fvocab G)) fwords of
        Inl e \<Rightarrow> ([], Inl e)
      | Inr fnums \<Rightarrow>
          (case sequence (enc self) fnums of
             Inl e \<Rightarrow> ([], Inl e)
           | Inr fencs \<Rightarrow>
               (let h = start (dec self) in
                case numberize (global_evocab G) ''<BOS>'' of
                  Inl e \<Rightarrow> ([], Inl e)
                | Inr enum \<Rightarrow>
                    (case translate_loop R (dec self) (global_evocab G) fencs 100 h (int enum) [] of
                       (hs, Inl e) \<Rightarrow> (hs, Inl e)
                     | (hs, Inr ewords) \<Rightarrow>
                         (hs, comprehension (denumberize (global_evocab G)) ewords)))))"

text \<open>\<open>Model.translate\<close>, and the states it passes to \<open>Decoder.step\<close>.\<close>

definition translate ::
  "('vec, 'val, 'o, 's) runtime \<Rightarrow> globals \<Rightarrow> ('vec, 'val) Model \<Rightarrow> string list
     \<Rightarrow> error + string list" where
  "translate R G self fwords = snd (translate_run R G self fwords)"

definition translate_states ::
  "('vec, 'val, 'o, 's) runtime \<Rightarrow> globals \<Rightarrow> ('vec, 'val) Model \<Rightarrow> string list
     \<Rightarrow> int list" where
  "translate_states R G self fwords = fst (translate_run R G self fwords)"

section \<open>Training loop\<close>

text \<open>
  A Python float is a number or NaN. The numbers, infinities included, are ordered
  linearly; \<open>x < y\<close> is false whenever \<open>x\<close> or \<open>y\<close> is NaN.
\<close>

datatype 'a pyfloat = Num 'a | NaN

fun float_less :: "'a::linorder pyfloat \<Rightarrow> 'a pyfloat \<Rightarrow> bool" where
  "float_less (Num a) (Num b) = (a < b)"
| "float_less _ _ = False"

text \<open>
  The checkpoint variables of the main program: \<open>best_dev_loss\<close>, which starts as
  \<open>None\<close>, and \<open>best_model\<close>, which is unbound until the first snapshot (\<open>None\<close> here).
  \<open>'m\<close> is the type of models.
\<close>

record ('m, 'a) checkpoint =
  best_model :: "'m option"
  best_dev_loss :: "'a pyfloat option"

text \<open>
  The checkpoint selection at the end of an epoch:
  \<open>if best_dev_loss is None or dev_loss < best_dev_loss:\<close> store \<open>copy.deepcopy(m)\<close>
  and \<open>dev_loss\<close>. The deep copy of \<open>m\<close> is the value \<open>m\<close>.
\<close>

definition select ::
  "('m, 'a::linorder) checkpoint \<Rightarrow> 'm \<Rightarrow> 'a pyfloat \<Rightarrow> ('m, 'a) checkpoint" where
  "select s m dev_loss =
     (if best_dev_loss s = None \<or> float_less dev_loss (the (best_dev_loss s))
      then \<lparr>best_model = Some m, best_dev_loss = Some dev_loss\<rparr>
      else s)"

text \<open>
  \<open>for epoch in range(n)\<close>: \<open>train epoch m\<close> is the model after the parameter updates of
  that epoch and \<open>dev m\<close> the held-out loss of the model \<open>m\<close>. \<open>run_epochs train dev m n\<close>
  is the state after the iterations \<open>epoch = 0, ..., n - 1\<close>: the current model and the
  checkpoint variables. Since \<open>train\<close> may depend on the epoch in any way (the shuffled
  order, the optimizer's state), any sequence of models is the run of some \<open>train\<close>.
\<close>

primrec run_epochs ::
  "(nat \<Rightarrow> 'm \<Rightarrow> 'm) \<Rightarrow> ('m \<Rightarrow> 'a::linorder pyfloat) \<Rightarrow> 'm \<Rightarrow> nat
     \<Rightarrow> 'm \<times> ('m, 'a) checkpoint" where
  "run_epochs train dev m 0 = (m, \<lparr>best_model = None, best_dev_loss = None\<rparr>)"
| "run_epochs train dev m (Suc epoch) =
     (case run_epochs train dev m epoch of
        (m', s) \<Rightarrow>
          (let m'' = train epoch m'; dev_loss = dev m''
           in (m'', select s m'' dev_loss)))"

text \<open>The main program: \<open>for epoch in range(10)\<close>.\<close>

definition training ::
  "(nat \<Rightarrow> 'm \<Rightarrow> 'm) \<Rightarrow> ('m \<Rightarrow> 'a::linorder pyfloat) \<Rightarrow> 'm \<Rightarrow> 'm \<times> ('m, 'a) checkpoint" where
  "training train dev m = run_epochs train dev m 10"

text \<open>
  The held-out losses observed in the first \<open>n\<close> epochs, in order, and those of a list
  of losses that are numbers.
\<close>

definition dev_losses ::
  "(nat \<Rightarrow> 'm \<Rightarrow> 'm) \<Rightarrow> ('m \<Rightarrow> 'a::linorder pyfloat) \<Rightarrow> 'm \<Rightarrow> nat \<Rightarrow> 'a pyfloat list" where
  "dev_losses train dev m n = map (\<lambda>k. dev (fst (run_epochs train dev m (Suc k)))) [0..<n]"

fun numbers :: "'a pyfloat list \<Rightarrow> 'a list" where
  "numbers [] = []"
| "numbers (Num a # xs) = a # numbers xs"
| "numbers (NaN # xs) = numbers xs"

section \<open>Specification functions\<close>

text \<open>
  The word that greedy decoding chooses at output position \<open>i\<close>: one call of \<open>step\<close> in
  state \<open>i\<close>, the argmax of its output, and the word of that number.
\<close>

definition greedy_word ::
  "('vec, 'val, 'o, 's) runtime \<Rightarrow> ('vec, 'val) Decoder \<Rightarrow> Vocab \<Rightarrow> 'vec list \<Rightarrow> nat
     \<Rightarrow> error + string" where
  "greedy_word R d ev fencs i =
     (case step R d fencs (int i) 0 of
        Inl e \<Rightarrow> Inl e
      | Inr (o', h') \<Rightarrow>
          (case argmax R o' of
             Inl e \<Rightarrow> Inl e
           | Inr enum' \<Rightarrow> denumberize ev enum'))"

text \<open>
  The two fields of a vocabulary describe the same bijection: the list has no repeated
  word, and the dictionary maps a word to a number exactly when the list holds the word
  at that index.
\<close>

definition Vocab_inv :: "Vocab \<Rightarrow> bool" where
  "Vocab_inv v \<longleftrightarrow>
     distinct (num_to_word v) \<and>
     (\<forall>w n. word_to_num v w = Some n \<longleftrightarrow> n < length (num_to_word v) \<and> num_to_word v ! n = w)"

section \<open>A small instance\<close>

text \<open>
  An instance of the parameters on which the definitions can be evaluated: encodings,
  position rows and outputs are integers, the encoding of a word is its number, the
  position row \<open>i\<close> is \<open>i\<close>, and attention at position \<open>q\<close> puts all weight on the source
  word \<open>q mod n\<close>, so that the output names one word number. Attention fails when keys
  and values differ in length, as a product of tensors of different shapes does.
\<close>

definition copy_runtime :: "(int, int list, int, int) runtime" where
  "copy_runtime =
     \<lparr>attention = (\<lambda>q k v. if v = [] \<or> length k \<noteq> length v then Inl RuntimeError
                            else Inr (v ! (nat q mod length v))),
      argmax = (\<lambda>o'. Inr o'),
      subscript = (\<lambda>o' enum. Inr (if enum = o' then 0 else - 1)),
      fzero = 0,
      fadd = (\<lambda>a b. a + b)\<rparr>"

definition copy_decoder :: "(int, int list) Decoder" where
  "copy_decoder =
     \<lparr>maxlen = 100, fpos = map int [0..<100], epos = map int [0..<100],
      out = (\<lambda>fencs. Inr fencs)\<rparr>"

definition copy_vocab :: Vocab where
  "copy_vocab = ior (Vocab_init [''<BOS>'', ''<EOS>'', ''<UNK>'']) [''i'', ''like'', ''sand'', ''<EOS>'']"

definition copy_model :: "(int, int list) Model" where
  "copy_model =
     \<lparr>fvocab = copy_vocab, evocab = copy_vocab,
      enc = \<lparr>emb = (\<lambda>fnums. Inr (map int fnums))\<rparr>, dec = copy_decoder\<rparr>"

definition copy_globals :: globals where
  "copy_globals = \<lparr>global_fvocab = copy_vocab, global_evocab = copy_vocab\<rparr>"

text \<open>
  Two instances of the training loop: the model is the number of epochs it was trained
  for, and its held-out loss is looked up in a table, with a NaN in the third epoch or
  in the first.
\<close>

definition count_epoch :: "nat \<Rightarrow> nat \<Rightarrow> nat" where
  "count_epoch epoch m = Suc m"

definition table_loss :: "nat \<Rightarrow> int pyfloat" where
  "table_loss m = [Num 0, Num 5, Num 3, NaN, Num 3, Num 6, Num 2, Num 2, Num 7, Num 1, Num 9] ! m"

definition nan_first_loss :: "nat \<Rightarrow> int pyfloat" where
  "nan_first_loss m = [Num 0, NaN, Num 5, Num 3, Num 4, Num 3, Num 6, Num 2, Num 2, Num 7, Num 1] ! m"

section \<open>Properties of Vocab\<close>

lemma enumerate_lookup:
  "distinct ws \<Longrightarrow>
   foldl (\<lambda>d (num, word). d(word \<mapsto> num)) m (enumerate k ws) w = Some n \<longleftrightarrow>
     (\<exists>i<length ws. ws ! i = w \<and> n = k + i) \<or> (w \<notin> set ws \<and> m w = Some n)"
proof (induction ws arbitrary: m k)
  case Nil
  then show ?case by simp
next
  case (Cons x xs)
  have ex: "(\<exists>i<length (x # xs). (x # xs) ! i = w \<and> n = k + i) \<longleftrightarrow>
            (x = w \<and> n = k) \<or> (\<exists>i<length xs. xs ! i = w \<and> n = Suc k + i)"
    by (auto simp: less_Suc_eq_0_disj)
  from Cons.prems have d: "distinct xs" and nx: "x \<notin> set xs" by auto
  show ?case
    unfolding ex using Cons.IH [OF d, of "m(x \<mapsto> k)" "Suc k"] nx
    by (auto simp: in_set_conv_nth)
qed

lemma Vocab_inv_init: "distinct ws \<Longrightarrow> Vocab_inv (Vocab_init ws)"
  by (simp add: Vocab_inv_def Vocab_init_def enumerate_lookup)

lemma contains_iff: "Vocab_inv v \<Longrightarrow> contains v w \<longleftrightarrow> w \<in> set (num_to_word v)"
  by (auto simp: Vocab_inv_def contains_def in_set_conv_nth)

lemma Vocab_inv_add: "Vocab_inv v \<Longrightarrow> Vocab_inv (add v w)"
proof (cases "contains v w")
  case True
  assume "Vocab_inv v" with True show ?thesis by (simp add: add_def)
next
  case False
  assume inv: "Vocab_inv v"
  with False have nin: "w \<notin> set (num_to_word v)" by (simp add: contains_iff)
  show ?thesis using inv nin False
    by (auto simp: Vocab_inv_def add_def Let_def nth_append less_Suc_eq contains_def)
qed

lemma Vocab_inv_ior: "Vocab_inv v \<Longrightarrow> Vocab_inv (ior v ws)"
  unfolding ior_def by (induction ws arbitrary: v) (simp_all add: Vocab_inv_add)

lemma set_add: "Vocab_inv v \<Longrightarrow> set (num_to_word (add v w)) = insert w (set (num_to_word v))"
  by (auto simp: add_def Let_def contains_iff)

lemma set_ior: "Vocab_inv v \<Longrightarrow> set (num_to_word (ior v ws)) = set (num_to_word v) \<union> set ws"
  unfolding ior_def
  by (induction ws arbitrary: v) (simp_all add: Vocab_inv_add set_add)

lemma word_to_num_add_keep:
  "word_to_num v w = Some n \<Longrightarrow> word_to_num (add v w') w = Some n"
  by (auto simp: add_def Let_def contains_def)

lemma word_to_num_ior_keep:
  "word_to_num v w = Some n \<Longrightarrow> word_to_num (ior v ws) w = Some n"
  unfolding ior_def
  by (induction ws arbitrary: v) (simp_all add: word_to_num_add_keep)

lemma Vocab_inv_built: "words_order words \<Longrightarrow> Vocab_inv (ior (Vocab_init words) ws)"
  by (simp add: words_order_def Vocab_inv_init Vocab_inv_ior)

lemma unk_built:
  assumes "words_order words"
  shows "\<exists>unk. word_to_num (ior (Vocab_init words) ws) ''<UNK>'' = Some unk"
proof -
  have inv: "Vocab_inv (Vocab_init words)"
    using assms by (simp add: words_order_def Vocab_inv_init)
  have "''<UNK>'' \<in> set (num_to_word (Vocab_init words))"
    using assms by (simp add: words_order_def insert_commute Vocab_init_def)
  with inv have "contains (Vocab_init words) ''<UNK>''" by (simp add: contains_iff)
  then obtain unk where "word_to_num (Vocab_init words) ''<UNK>'' = Some unk"
    by (auto simp: contains_def)
  then show ?thesis by (blast intro: word_to_num_ior_keep)
qed

text \<open>
  C5. For a vocabulary built by the constructor followed by any sequence of \<open>add\<close> calls,
  and a word \<open>w\<close> that it contains: \<open>numberize\<close> returns an id \<open>num\<close>, \<open>denumberize\<close> of
  that id returns \<open>w\<close>, and \<open>numberize\<close> still returns the same id for \<open>w\<close> after any
  further words have been added.
\<close>

theorem numberize_denumberize:
  assumes "words_order words" and "contains (ior (Vocab_init words) ws) w"
  shows "\<exists>num. numberize (ior (Vocab_init words) ws) w = Inr num \<and>
               denumberize (ior (Vocab_init words) ws) (int num) = Inr w \<and>
               numberize (ior (ior (Vocab_init words) ws) later) w = Inr num"
proof -
  let ?v = "ior (Vocab_init words) ws"
  have inv: "Vocab_inv ?v" using assms(1) by (rule Vocab_inv_built)
  from assms(2) obtain num where num: "word_to_num ?v w = Some num"
    by (auto simp: contains_def)
  with inv have "num < length (num_to_word ?v)" and "num_to_word ?v ! num = w"
    by (simp_all add: Vocab_inv_def)
  then have "denumberize ?v (int num) = Inr w"
    by (simp add: denumberize_def getitem_def)
  moreover from num have "numberize ?v w = Inr num" by (simp add: numberize_def)
  moreover from num have "numberize (ior ?v later) w = Inr num"
    by (simp add: numberize_def word_to_num_ior_keep)
  ultimately show ?thesis by blast
qed

theorem numberize_denumberize_witness:
  "words_order [''<EOS>'', ''<UNK>'', ''<BOS>''] \<and>
   contains (ior (Vocab_init [''<EOS>'', ''<UNK>'', ''<BOS>'']) [''i'', ''like'', ''sand'', ''<EOS>'']) ''like'' \<and>
   numberize (ior (Vocab_init [''<EOS>'', ''<UNK>'', ''<BOS>'']) [''i'', ''like'', ''sand'', ''<EOS>'']) ''like'' = Inr 4 \<and>
   denumberize (ior (Vocab_init [''<EOS>'', ''<UNK>'', ''<BOS>'']) [''i'', ''like'', ''sand'', ''<EOS>'']) 4 = Inr ''like'' \<and>
   numberize (ior (ior (Vocab_init [''<EOS>'', ''<UNK>'', ''<BOS>'']) [''i'', ''like'', ''sand'', ''<EOS>'']) [''do'', ''like'']) ''like'' = Inr 4"
  using numberize_denumberize [of "[''<EOS>'', ''<UNK>'', ''<BOS>'']" "[''i'', ''like'', ''sand'', ''<EOS>'']" "''like''" "[''do'', ''like'']"]
  by (simp add: words_order_def insert_commute Vocab_init_def ior_def add_def contains_def numberize_def
      denumberize_def getitem_def)

text \<open>
  C6. On a vocabulary built by the constructor followed by any sequence of \<open>add\<close> calls,
  \<open>'<UNK>'\<close> has a number \<open>unk\<close>, which \<open>denumberize\<close> maps back to \<open>'<UNK>'\<close> and which is
  what \<open>numberize('<UNK>')\<close> returns. For every word \<open>numberize\<close> returns a number below
  the size, without failing: the word's own number when the vocabulary contains it,
  and \<open>unk\<close> when it does not.
\<close>

theorem numberize_total:
  assumes "words_order words"
  shows "\<exists>unk. word_to_num (ior (Vocab_init words) ws) ''<UNK>'' = Some unk \<and>
               denumberize (ior (Vocab_init words) ws) (int unk) = Inr ''<UNK>'' \<and>
               numberize (ior (Vocab_init words) ws) ''<UNK>'' = Inr unk \<and>
               (\<exists>num. numberize (ior (Vocab_init words) ws) w = Inr num \<and>
                      num < len (ior (Vocab_init words) ws) \<and>
                      (if contains (ior (Vocab_init words) ws) w
                       then word_to_num (ior (Vocab_init words) ws) w = Some num \<and>
                            denumberize (ior (Vocab_init words) ws) (int num) = Inr w
                       else num = unk))"
proof -
  let ?v = "ior (Vocab_init words) ws"
  have inv: "Vocab_inv ?v" using assms by (rule Vocab_inv_built)
  from unk_built [OF assms] obtain unk where unk: "word_to_num ?v ''<UNK>'' = Some unk" ..
  with inv have u: "unk < length (num_to_word ?v)" "num_to_word ?v ! unk = ''<UNK>''"
    by (simp_all add: Vocab_inv_def)
  then have du: "denumberize ?v (int unk) = Inr ''<UNK>''"
    by (simp add: denumberize_def getitem_def)
  from unk have nu: "numberize ?v ''<UNK>'' = Inr unk"
    by (simp add: numberize_def)
  have "\<exists>num. numberize ?v w = Inr num \<and> num < len ?v \<and>
          (if contains ?v w
           then word_to_num ?v w = Some num \<and> denumberize ?v (int num) = Inr w
           else num = unk)"
  proof (cases "word_to_num ?v w")
    case None
    with unk u show ?thesis
      by (simp add: numberize_def contains_def len_def)
  next
    case (Some num)
    with inv have "num < length (num_to_word ?v)" "num_to_word ?v ! num = w"
      by (simp_all add: Vocab_inv_def)
    with Some show ?thesis
      by (simp add: numberize_def contains_def len_def denumberize_def getitem_def)
  qed
  with unk du nu show ?thesis by blast
qed

theorem numberize_total_witness:
  "words_order [''<BOS>'', ''<EOS>'', ''<UNK>''] \<and>
   word_to_num (ior (Vocab_init [''<BOS>'', ''<EOS>'', ''<UNK>'']) [''sand'']) ''<UNK>'' = Some 2 \<and>
   denumberize (ior (Vocab_init [''<BOS>'', ''<EOS>'', ''<UNK>'']) [''sand'']) 2 = Inr ''<UNK>'' \<and>
   \<not> contains (ior (Vocab_init [''<BOS>'', ''<EOS>'', ''<UNK>'']) [''sand'']) ''water'' \<and>
   numberize (ior (Vocab_init [''<BOS>'', ''<EOS>'', ''<UNK>'']) [''sand'']) ''water'' = Inr 2 \<and>
   contains (ior (Vocab_init [''<BOS>'', ''<EOS>'', ''<UNK>'']) [''sand'']) ''sand'' \<and>
   numberize (ior (Vocab_init [''<BOS>'', ''<EOS>'', ''<UNK>'']) [''sand'']) ''sand'' = Inr 3"
proof -
  have o: "words_order [''<BOS>'', ''<EOS>'', ''<UNK>'']"
    by (simp add: words_order_def)
  have v: "ior (Vocab_init [''<BOS>'', ''<EOS>'', ''<UNK>'']) [''sand''] =
           \<lparr>num_to_word = [''<BOS>'', ''<EOS>'', ''<UNK>'', ''sand''],
            word_to_num = [''<BOS>'' \<mapsto> 0, ''<EOS>'' \<mapsto> 1, ''<UNK>'' \<mapsto> 2, ''sand'' \<mapsto> 3]\<rparr>"
    by (simp add: Vocab_init_def ior_def add_def contains_def numeral_2_eq_2 numeral_3_eq_3)
  show ?thesis
    using numberize_total [OF o, of "[''sand'']" "''water''"]
      numberize_total [OF o, of "[''sand'']" "''sand''"] o
    unfolding v by (auto simp: contains_def len_def numberize_def denumberize_def getitem_def)
qed

text \<open>
  C7. For a vocabulary \<open>v\<close> built by the constructor followed by any sequence of \<open>add\<close>
  calls: if \<open>w\<close> is in \<open>v\<close> then \<open>add\<close> leaves \<open>v\<close> as it is; otherwise it appends \<open>w\<close> and
  gives it the number \<open>len v\<close>, the size before the call. Every word that had a number
  keeps it, and that number is below \<open>len v\<close>, so the new number was never in use.
  Adding the same word a second time changes nothing.
\<close>

theorem add_idempotent:
  assumes "words_order words" and "v = ior (Vocab_init words) ws"
  shows "(contains v w \<longrightarrow> add v w = v) \<and>
         (\<not> contains v w \<longrightarrow>
            num_to_word (add v w) = num_to_word v @ [w] \<and>
            word_to_num (add v w) w = Some (len v) \<and>
            len (add v w) = len v + 1) \<and>
         (\<forall>w' n. word_to_num v w' = Some n \<longrightarrow>
            word_to_num (add v w) w' = Some n \<and> n < len v) \<and>
         add (add v w) w = add v w"
proof -
  have inv: "Vocab_inv v"
    using assms by (simp add: Vocab_inv_built)
  have present: "contains v w \<longrightarrow> add v w = v"
    by (simp add: add_def)
  have absent: "\<not> contains v w \<longrightarrow>
            num_to_word (add v w) = num_to_word v @ [w] \<and>
            word_to_num (add v w) w = Some (len v) \<and>
            len (add v w) = len v + 1"
    by (simp add: add_def Let_def len_def)
  have old: "\<forall>w' n. word_to_num v w' = Some n \<longrightarrow>
            word_to_num (add v w) w' = Some n \<and> n < len v"
    using inv by (simp add: word_to_num_add_keep Vocab_inv_def len_def)
  have twice: "add (add v w) w = add v w"
    by (simp add: add_def Let_def contains_def)
  from present absent old twice show ?thesis by blast
qed

theorem add_idempotent_witness:
  "words_order [''<BOS>'', ''<EOS>'', ''<UNK>''] \<and>
   \<not> contains (ior (Vocab_init [''<BOS>'', ''<EOS>'', ''<UNK>'']) [''sand'']) ''like'' \<and>
   num_to_word (add (ior (Vocab_init [''<BOS>'', ''<EOS>'', ''<UNK>'']) [''sand'']) ''like'') =
     [''<BOS>'', ''<EOS>'', ''<UNK>'', ''sand'', ''like''] \<and>
   word_to_num (add (ior (Vocab_init [''<BOS>'', ''<EOS>'', ''<UNK>'']) [''sand'']) ''like'') ''like'' = Some 4 \<and>
   word_to_num (ior (Vocab_init [''<BOS>'', ''<EOS>'', ''<UNK>'']) [''sand'']) ''sand'' = Some 3 \<and>
   word_to_num (add (ior (Vocab_init [''<BOS>'', ''<EOS>'', ''<UNK>'']) [''sand'']) ''like'') ''sand'' = Some 3 \<and>
   len (ior (Vocab_init [''<BOS>'', ''<EOS>'', ''<UNK>'']) [''sand'']) = 4"
proof -
  have o: "words_order [''<BOS>'', ''<EOS>'', ''<UNK>'']"
    by (simp add: words_order_def)
  have v: "ior (Vocab_init [''<BOS>'', ''<EOS>'', ''<UNK>'']) [''sand''] =
           \<lparr>num_to_word = [''<BOS>'', ''<EOS>'', ''<UNK>'', ''sand''],
            word_to_num = [''<BOS>'' \<mapsto> 0, ''<EOS>'' \<mapsto> 1, ''<UNK>'' \<mapsto> 2, ''sand'' \<mapsto> 3]\<rparr>"
    by (simp add: Vocab_init_def ior_def add_def contains_def numeral_2_eq_2 numeral_3_eq_3)
  show ?thesis
    using add_idempotent [OF o refl, of "[''sand'']" "''like''"] o
    unfolding v by (simp add: add_def contains_def len_def)
qed

text \<open>
  C8, as stated, fails: adding the reserved word \<open>'<EOS>'\<close>, which every sentence read
  by \<open>read_data\<close> ends with, leaves the size at 3, while 3 plus the number of distinct
  added words is 4.
\<close>

theorem len_distinct_added_counterexample:
  "len (ior (Vocab_init [''<BOS>'', ''<EOS>'', ''<UNK>'']) [''<EOS>'']) \<noteq>
   3 + card (set [''<EOS>''])"
  by (simp add: Vocab_init_def ior_def add_def contains_def len_def)

text \<open>
  C8, amended. For a vocabulary built by the constructor followed by any sequence of
  \<open>add\<close> calls, the size is 3 plus the number of distinct added words that are not one of
  the three reserved words.
\<close>

theorem len_built:
  assumes "words_order words"
  shows "len (ior (Vocab_init words) ws) =
         3 + card (set ws - {''<BOS>'', ''<EOS>'', ''<UNK>''})"
proof -
  let ?v = "ior (Vocab_init words) ws"
  let ?R = "{''<BOS>'', ''<EOS>'', ''<UNK>''}"
  have inv0: "Vocab_inv (Vocab_init words)"
    using assms by (simp add: words_order_def Vocab_inv_init)
  have set0: "set (num_to_word (Vocab_init words)) = ?R"
    using assms by (simp add: words_order_def Vocab_init_def)
  have "distinct (num_to_word ?v)"
    using Vocab_inv_built [OF assms] by (simp add: Vocab_inv_def)
  then have "len ?v = card (set (num_to_word ?v))"
    by (simp add: len_def distinct_card)
  also have "set (num_to_word ?v) = ?R \<union> (set ws - ?R)"
    unfolding set_ior [OF inv0] set0 by blast
  also have "card (?R \<union> (set ws - ?R)) = card ?R + card (set ws - ?R)"
    by (rule card_Un_disjoint) auto
  also have "card ?R = 3" by simp
  finally show ?thesis .
qed

theorem len_built_witness:
  "words_order [''<UNK>'', ''<EOS>'', ''<BOS>''] \<and>
   len (ior (Vocab_init [''<UNK>'', ''<EOS>'', ''<BOS>'']) [''i'', ''like'', ''i'', ''<EOS>'']) = 5"
proof -
  have o: "words_order [''<UNK>'', ''<EOS>'', ''<BOS>'']"
    by (simp add: words_order_def insert_commute)
  have "set [''i'', ''like'', ''i'', ''<EOS>''] - {''<BOS>'', ''<EOS>'', ''<UNK>''} = {''i'', ''like''}"
    by auto
  then have "card (set [''i'', ''like'', ''i'', ''<EOS>''] - {''<BOS>'', ''<EOS>'', ''<UNK>''}) = 2"
    by simp
  with len_built [OF o, of "[''i'', ''like'', ''i'', ''<EOS>'']"] o show ?thesis
    by simp
qed

section \<open>Properties of the decoder\<close>

lemma step_Inr:
  "step R d fencs h enum = Inr (o', h') \<Longrightarrow>
     h' = h + 1 \<and> - int (length (epos d)) \<le> h \<and> h < int (length (epos d))"
  by (auto simp: step_def getitem_def Let_def split: sum.splits if_splits)

lemma copy_decoder_shape: "Decoder_shape copy_decoder"
  by (simp add: Decoder_shape_def copy_decoder_def)

text \<open>
  C2. \<open>Decoder.step\<close> returns the same result, log-probabilities and new state alike,
  whatever previous word number it is given.
\<close>

theorem step_ignores_enum:
  "step R d fencs i enum1 = step R d fencs i enum2"
  by (simp add: step_def)

text \<open>
  C4. \<open>Decoder.start\<close> returns 0. Whenever \<open>Decoder.step\<close> returns, for any encodings,
  any state \<open>i\<close> and any previous word, the new state is \<open>i + 1\<close>. And it does return, with
  new state \<open>i + 1\<close>, for every state \<open>0 \<le> i < maxlen\<close> of a decoder of the constructor's
  shape, when the output layer and the attention succeed.
\<close>

theorem step_increments:
  "start d = 0 \<and>
   (\<forall>o' h'. step R d fencs i enum = Inr (o', h') \<longrightarrow> h' = i + 1) \<and>
   (Decoder_shape d \<and> 0 \<le> i \<and> i < int (maxlen d) \<and> out d fencs = Inr v \<and>
    attention R (epos d ! nat i) (take (length fencs) (fpos d)) v = Inr p \<longrightarrow>
      step R d fencs i enum = Inr (p, i + 1))"
proof -
  have "\<forall>o' h'. step R d fencs i enum = Inr (o', h') \<longrightarrow> h' = i + 1"
    by (auto dest: step_Inr)
  moreover have "Decoder_shape d \<and> 0 \<le> i \<and> i < int (maxlen d) \<and> out d fencs = Inr v \<and>
    attention R (epos d ! nat i) (take (length fencs) (fpos d)) v = Inr p \<longrightarrow>
      step R d fencs i enum = Inr (p, i + 1)"
    by (simp add: step_def getitem_def Decoder_shape_def)
  moreover have "start d = 0" by (simp add: start_def)
  ultimately show ?thesis by blast
qed

theorem step_increments_witness:
  "start copy_decoder = 0 \<and>
   Decoder_shape copy_decoder \<and> (0::int) \<le> 7 \<and> 7 < int (maxlen copy_decoder) \<and>
   out copy_decoder [3, 4, 5, 1] = Inr [3, 4, 5, 1] \<and>
   attention copy_runtime (epos copy_decoder ! nat 7) (take (length [3, 4, 5, 1::int]) (fpos copy_decoder))
     [3, 4, 5, 1] = Inr 1 \<and>
   step copy_runtime copy_decoder [3, 4, 5, 1] 7 2 = Inr (1, 8)"
proof -
  have a: "attention copy_runtime (epos copy_decoder ! nat 7)
             (take (length [3, 4, 5, 1::int]) (fpos copy_decoder)) [3, 4, 5, 1] = Inr 1"
    by code_simp
  have b: "out copy_decoder [3, 4, 5, 1] = Inr [3, 4, 5, 1]"
    by (simp add: copy_decoder_def)
  have c: "maxlen copy_decoder = 100" by (simp add: copy_decoder_def)
  have s: "start copy_decoder = 0"
    using step_increments [of copy_decoder copy_runtime "[3, 4, 5, 1]" 7 2 "[3, 4, 5, 1]" 1]
    by (rule conjunct1)
  have "step copy_runtime copy_decoder [3, 4, 5, 1] 7 2 = Inr (1, 7 + 1)"
    using step_increments [of copy_decoder copy_runtime "[3, 4, 5, 1]" 7 2 "[3, 4, 5, 1]" 1,
        THEN conjunct2, THEN conjunct2] copy_decoder_shape a b c
    by simp
  with s copy_decoder_shape a b c show ?thesis by simp
qed

section \<open>Properties of the model\<close>

lemma logprob_loop_states:
  "s \<in> set (fst (logprob_loop R d ev fencs es h enum lp)) \<Longrightarrow>
     h \<le> s \<and> s < h + int (length es)"
proof (induction es arbitrary: h enum lp)
  case Nil
  then show ?case by simp
next
  case (Cons e es)
  show ?case
  proof (cases "step R d fencs h enum")
    case (Inl err)
    with Cons.prems show ?thesis by simp
  next
    case (Inr p)
    obtain o' h' where p: "p = (o', h')" by (cases p)
    with Inr have h': "h' = h + 1" by (auto dest: step_Inr)
    show ?thesis
    proof (cases "numberize ev e")
      case (Inl err)
      with Cons.prems Inr p show ?thesis by simp
    next
      case enum': (Inr enum')
      show ?thesis
      proof (cases "subscript R o' (int enum')")
        case (Inl err)
        with Cons.prems Inr p enum' show ?thesis by simp
      next
        case x: (Inr x)
        from Cons.prems Inr p enum' x
        have "s = h \<or> s \<in> set (fst (logprob_loop R d ev fencs es h' (int enum') (fadd R lp x)))"
          by (auto split: prod.splits)
        with Cons.IH [of h' "int enum'" "fadd R lp x"] h' show ?thesis by auto
      qed
    qed
  qed
qed

lemma translate_loop_states:
  "s \<in> set (fst (translate_loop R d ev fencs n h enum acc)) \<Longrightarrow>
     h \<le> s \<and> s < h + int n"
proof (induction n arbitrary: h enum acc)
  case 0
  then show ?case by simp
next
  case (Suc n)
  show ?case
  proof (cases "step R d fencs h enum")
    case (Inl err)
    with Suc.prems show ?thesis by simp
  next
    case (Inr p)
    obtain o' h' where p: "p = (o', h')" by (cases p)
    with Inr have h': "h' = h + 1" by (auto dest: step_Inr)
    show ?thesis
    proof (cases "argmax R o'")
      case (Inl err)
      with Suc.prems Inr p show ?thesis by simp
    next
      case enum': (Inr enum')
      show ?thesis
      proof (cases "denumberize ev enum'")
        case (Inl err)
        with Suc.prems Inr p enum' show ?thesis by simp
      next
        case w: (Inr w)
        from Suc.prems Inr p enum' w
        have "s = h \<or> s \<in> set (fst (translate_loop R d ev fencs n h' enum' (acc @ [enum'])))"
          by (auto split: prod.splits if_splits)
        with Suc.IH [of h' enum' "acc @ [enum']"] h' show ?thesis by auto
      qed
    qed
  qed
qed

lemma logprob_loop_overflow:
  "0 \<le> h \<Longrightarrow> int (length (epos d)) < h + int (length es) \<Longrightarrow>
     h \<le> int (length (epos d)) \<Longrightarrow>
     \<exists>e. snd (logprob_loop R d ev fencs es h enum lp) = Inl e"
proof (induction es arbitrary: h enum lp)
  case Nil
  then show ?case by simp
next
  case (Cons e es)
  show ?case
  proof (cases "step R d fencs h enum")
    case (Inl err)
    then show ?thesis by simp
  next
    case (Inr p)
    obtain o' h' where p: "p = (o', h')" by (cases p)
    with Inr have h': "h' = h + 1" and lt: "h < int (length (epos d))"
      by (auto dest: step_Inr)
    show ?thesis
    proof (cases "numberize ev e")
      case (Inl err)
      with Inr p show ?thesis by simp
    next
      case enum': (Inr enum')
      show ?thesis
      proof (cases "subscript R o' (int enum')")
        case (Inl err)
        with Inr p enum' show ?thesis by simp
      next
        case x: (Inr x)
        from Cons.prems h' lt
        have "\<exists>e. snd (logprob_loop R d ev fencs es h' (int enum') (fadd R lp x)) = Inl e"
          by (intro Cons.IH) auto
        with Inr p enum' x show ?thesis by (auto split: prod.splits)
      qed
    qed
  qed
qed

text \<open>
  C1, as stated, fails for \<open>Model.logprob\<close>, whose loop runs \<open>len(ewords)\<close> times with no
  cap: on a target of 101 words it calls \<open>Decoder.step\<close> with state 100, which is
  \<open>maxlen\<close>, and the call raises \<open>IndexError\<close>.
\<close>

theorem step_states_counterexample:
  "Decoder_shape (dec copy_model) \<and>
   maxlen (dec copy_model) = 100 \<and>
   100 \<in> set (logprob_states copy_runtime copy_globals copy_model [''i'', ''<EOS>'']
               (replicate 101 ''i'')) \<and>
   logprob copy_runtime copy_globals copy_model [''i'', ''<EOS>''] (replicate 101 ''i'') =
     Inl IndexError"
  by code_simp

text \<open>
  C1, amended. For a decoder of the constructor's shape: every state that
  \<open>Model.translate\<close> passes to \<open>Decoder.step\<close> is at least 0 and below \<open>maxlen\<close>, for any
  source sentence; every state that \<open>Model.logprob\<close> passes to \<open>Decoder.step\<close> is at
  least 0 and below \<open>maxlen\<close> when the target has at most \<open>maxlen\<close> words; and on a target
  of more than \<open>maxlen\<close> words \<open>Model.logprob\<close> raises an error and returns no value.
\<close>

theorem step_states_in_range:
  assumes "Decoder_shape (dec self)"
  shows "(\<forall>h\<in>set (translate_states R G self fwords). 0 \<le> h \<and> h < int (maxlen (dec self))) \<and>
         (length ewords \<le> maxlen (dec self) \<longrightarrow>
            (\<forall>h\<in>set (logprob_states R G self fwords ewords).
               0 \<le> h \<and> h < int (maxlen (dec self)))) \<and>
         (maxlen (dec self) < length ewords \<longrightarrow>
            (\<exists>e. logprob R G self fwords ewords = Inl e))"
proof -
  from assms have m: "maxlen (dec self) = 100" and l: "length (epos (dec self)) = 100"
    by (simp_all add: Decoder_shape_def)
  have t: "0 \<le> h \<and> h < int (maxlen (dec self))"
    if "h \<in> set (translate_states R G self fwords)" for h
  proof -
    from that have
      "\<exists>fencs enum. h \<in> set (fst (translate_loop R (dec self) (global_evocab G) fencs 100 0 enum []))"
      by (auto simp: translate_states_def translate_run_def start_def
          split: sum.splits prod.splits) (metis fst_conv)+
    then obtain fencs enum where
      "h \<in> set (fst (translate_loop R (dec self) (global_evocab G) fencs 100 0 enum []))"
      by blast
    from translate_loop_states [OF this] m show ?thesis by simp
  qed
  have p: "0 \<le> h \<and> h < int (maxlen (dec self))"
    if "h \<in> set (logprob_states R G self fwords ewords)" and "length ewords \<le> maxlen (dec self)"
    for h
  proof -
    from that(1) obtain fencs enum lp where
      "h \<in> set (fst (logprob_loop R (dec self) (global_evocab G) fencs ewords 0 enum lp))"
      by (auto simp: logprob_states_def logprob_run_def start_def split: sum.splits)
    from logprob_loop_states [OF this] that(2) show ?thesis by simp
  qed
  have f: "\<exists>e. logprob R G self fwords ewords = Inl e" if "maxlen (dec self) < length ewords"
  proof -
    have "\<exists>e. snd (logprob_loop R (dec self) (global_evocab G) fencs ewords 0 enum lp) = Inl e"
      for fencs enum lp
      using that m l by (intro logprob_loop_overflow) simp_all
    then show ?thesis
      by (auto simp: logprob_def logprob_run_def start_def split: sum.splits)
  qed
  from t p f show ?thesis by blast
qed

theorem step_states_in_range_witness:
  "Decoder_shape (dec copy_model) \<and>
   translate_states copy_runtime copy_globals copy_model [''i'', ''like'', ''sand'', ''<EOS>''] =
     [0, 1, 2, 3] \<and>
   length [''sand'', ''<EOS>''] \<le> maxlen (dec copy_model) \<and>
   logprob_states copy_runtime copy_globals copy_model [''i'', ''like'', ''sand'', ''<EOS>'']
     [''sand'', ''<EOS>''] = [0, 1] \<and>
   maxlen (dec copy_model) < length (replicate 101 ''sand'') \<and>
   logprob copy_runtime copy_globals copy_model [''i'', ''like'', ''sand'', ''<EOS>'']
     (replicate 101 ''sand'') = Inl IndexError"
proof -
  have s: "Decoder_shape (dec copy_model)"
    by (simp add: copy_model_def copy_decoder_shape)
  have a: "translate_states copy_runtime copy_globals copy_model
             [''i'', ''like'', ''sand'', ''<EOS>''] = [0, 1, 2, 3]"
    by code_simp
  have b: "logprob_states copy_runtime copy_globals copy_model
             [''i'', ''like'', ''sand'', ''<EOS>''] [''sand'', ''<EOS>''] = [0, 1]"
    by code_simp
  have c: "logprob copy_runtime copy_globals copy_model [''i'', ''like'', ''sand'', ''<EOS>'']
             (replicate 101 ''sand'') = Inl IndexError"
    by code_simp
  have d: "maxlen (dec copy_model) = 100"
    by (simp add: copy_model_def copy_decoder_def)
  have e: "length (replicate 101 ''sand'') = 101" by simp
  from step_states_in_range [OF s, of copy_runtime copy_globals
      "[''i'', ''like'', ''sand'', ''<EOS>'']" "[''sand'', ''<EOS>'']"]
    step_states_in_range [OF s, of copy_runtime copy_globals
      "[''i'', ''like'', ''sand'', ''<EOS>'']" "replicate 101 ''sand''"]
    s a b c d e
  show ?thesis by simp
qed

lemma comprehension_all2:
  "comprehension f xs = Inr ys \<Longrightarrow> list_all2 (\<lambda>x y. f x = Inr y) xs ys"
  by (induction xs arbitrary: ys) (auto split: sum.splits)

lemma translate_loop_result:
  "translate_loop R d ev fencs n h enum acc = (hs, Inr r) \<Longrightarrow>
     \<exists>new. r = acc @ new \<and> length new \<le> n \<and>
           (\<forall>x\<in>set new. \<exists>w. denumberize ev x = Inr w \<and> w \<noteq> ''<EOS>'')"
proof (induction n arbitrary: h enum acc hs)
  case 0
  then show ?case by simp
next
  case (Suc n)
  from Suc.prems have
    "\<exists>h' enum' w hs'. denumberize ev enum' = Inr w \<and>
       (if w = ''<EOS>'' then r = acc
        else translate_loop R d ev fencs n h' enum' (acc @ [enum']) = (hs', Inr r))"
    by (auto split: sum.splits prod.splits if_splits)
  then obtain h' enum' w hs' where
    w: "denumberize ev enum' = Inr w" and
    r: "if w = ''<EOS>'' then r = acc
        else translate_loop R d ev fencs n h' enum' (acc @ [enum']) = (hs', Inr r)"
    by blast
  show ?case
  proof (cases "w = ''<EOS>''")
    case True
    with r show ?thesis by simp
  next
    case False
    with r have "translate_loop R d ev fencs n h' enum' (acc @ [enum']) = (hs', Inr r)"
      by simp
    from Suc.IH [OF this] obtain new where
      new: "r = (acc @ [enum']) @ new" "length new \<le> n"
        "\<forall>x\<in>set new. \<exists>w. denumberize ev x = Inr w \<and> w \<noteq> ''<EOS>''"
      by blast
    with w False have
      "r = acc @ (enum' # new) \<and> length (enum' # new) \<le> Suc n \<and>
       (\<forall>x\<in>set (enum' # new). \<exists>w. denumberize ev x = Inr w \<and> w \<noteq> ''<EOS>'')"
      by simp
    then show ?thesis by blast
  qed
qed

lemma translate_Inr:
  assumes "translate R G self fwords = Inr ws"
  shows "length ws \<le> 100 \<and> ''<EOS>'' \<notin> set ws"
proof -
  from assms obtain fencs h enum hs ewords where
    loop: "translate_loop R (dec self) (global_evocab G) fencs 100 h enum [] = (hs, Inr ewords)"
    and ws: "comprehension (denumberize (global_evocab G)) ewords = Inr ws"
    by (auto simp: translate_def translate_run_def split: sum.splits prod.splits)
  from translate_loop_result [OF loop] have
    len: "length ewords \<le> 100" and
    ne: "\<forall>x\<in>set ewords. \<exists>w. denumberize (global_evocab G) x = Inr w \<and> w \<noteq> ''<EOS>''"
    by auto
  from comprehension_all2 [OF ws] have
    all2: "list_all2 (\<lambda>x y. denumberize (global_evocab G) x = Inr y) ewords ws" .
  then have "length ws = length ewords" by (simp add: list_all2_lengthD)
  moreover have "''<EOS>'' \<notin> set ws"
  proof
    assume "''<EOS>'' \<in> set ws"
    then obtain i where i: "i < length ws" "ws ! i = ''<EOS>''"
      by (auto simp: in_set_conv_nth)
    with all2 have "denumberize (global_evocab G) (ewords ! i) = Inr ''<EOS>''"
      and "ewords ! i \<in> set ewords"
      by (auto simp: list_all2_conv_all_nth)
    with ne show False by auto
  qed
  ultimately show ?thesis using len by simp
qed

lemma translate_loop_greedy:
  assumes "\<forall>i. k \<le> i \<and> i < k + n \<longrightarrow> (\<exists>w. greedy_word R d ev fencs i = Inr w)"
  shows "\<exists>hs ids. translate_loop R d ev fencs n (int k) enum acc = (hs, Inr (acc @ ids)) \<and>
           comprehension (denumberize ev) ids =
             Inr (takeWhile (\<lambda>w. w \<noteq> ''<EOS>'')
                    (map (\<lambda>i. projr (greedy_word R d ev fencs i)) [k..<k + n]))"
  using assms
proof (induction n arbitrary: k enum acc)
  case 0
  then show ?case by simp
next
  case (Suc n)
  from Suc.prems obtain w where gw: "greedy_word R d ev fencs k = Inr w"
    by (metis le_refl less_add_Suc2 add_Suc_right less_Suc_eq_le le_add1)
  then obtain o' h' enum' where
    st0: "step R d fencs (int k) 0 = Inr (o', h')" and
    am: "argmax R o' = Inr enum'" and
    dn: "denumberize ev enum' = Inr w"
    by (auto simp: greedy_word_def split: sum.splits)
  have "step R d fencs (int k) enum = step R d fencs (int k) 0"
    by (simp add: step_def)
  with st0 have st: "step R d fencs (int k) enum = Inr (o', h')" by simp
  from st0 have h': "h' = int (Suc k)" by (auto dest: step_Inr)
  have upt: "[k..<k + Suc n] = k # [Suc k..<Suc k + n]"
    by (simp add: upt_conv_Cons)
  show ?case
  proof (cases "w = ''<EOS>''")
    case True
    with st am dn gw show ?thesis
      unfolding upt by simp
  next
    case False
    have "\<forall>i. Suc k \<le> i \<and> i < Suc k + n \<longrightarrow> (\<exists>w. greedy_word R d ev fencs i = Inr w)"
      using Suc.prems by simp
    from Suc.IH [OF this, of enum' "acc @ [enum']"] obtain hs ids where
      loop: "translate_loop R d ev fencs n (int (Suc k)) enum' (acc @ [enum']) =
               (hs, Inr ((acc @ [enum']) @ ids))" and
      ids: "comprehension (denumberize ev) ids =
              Inr (takeWhile (\<lambda>w. w \<noteq> ''<EOS>'')
                     (map (\<lambda>i. projr (greedy_word R d ev fencs i)) [Suc k..<Suc k + n]))"
      by blast
    from st am dn False loop h' have
      "translate_loop R d ev fencs (Suc n) (int k) enum acc =
         (int k # hs, Inr (acc @ (enum' # ids)))"
      by simp
    moreover from dn ids gw False have
      "comprehension (denumberize ev) (enum' # ids) =
         Inr (takeWhile (\<lambda>w. w \<noteq> ''<EOS>'')
                (map (\<lambda>i. projr (greedy_word R d ev fencs i)) [k..<k + Suc n]))"
      unfolding upt by simp
    ultimately show ?thesis by blast
  qed
qed

lemma translate_greedy:
  assumes "comprehension (numberize (global_fvocab G)) fwords = Inr fnums"
    and "sequence (enc self) fnums = Inr fencs"
    and "numberize (global_evocab G) ''<BOS>'' = Inr bos"
    and "\<forall>i<100. \<exists>w. greedy_word R (dec self) (global_evocab G) fencs i = Inr w"
  shows "translate R G self fwords =
           Inr (takeWhile (\<lambda>w. w \<noteq> ''<EOS>'')
                  (map (\<lambda>i. projr (greedy_word R (dec self) (global_evocab G) fencs i)) [0..<100]))"
proof -
  from assms(4) have
    "\<forall>i. 0 \<le> i \<and> i < 0 + 100 \<longrightarrow> (\<exists>w. greedy_word R (dec self) (global_evocab G) fencs i = Inr w)"
    by simp
  from translate_loop_greedy [OF this, of "int bos" "[]"] obtain hs ids where
    "translate_loop R (dec self) (global_evocab G) fencs 100 (int 0) (int bos) [] = (hs, Inr ids)"
    "comprehension (denumberize (global_evocab G)) ids =
       Inr (takeWhile (\<lambda>w. w \<noteq> ''<EOS>'')
              (map (\<lambda>i. projr (greedy_word R (dec self) (global_evocab G) fencs i)) [0..<0 + 100]))"
    by auto
  with assms(1-3) show ?thesis
    by (simp add: translate_def translate_run_def start_def)
qed

text \<open>
  C3. Whenever \<open>Model.translate\<close> returns, the list it returns has at most 100 words and
  does not contain \<open>'<EOS>'\<close>. It does return when the words are numberized and encoded
  without error and the greedy word of each of the positions 0 to 99 is defined, and
  then the result is the greedy words of the positions 0, 1, ... up to, and without,
  the first \<open>'<EOS>'\<close>, or all 100 of them when none is \<open>'<EOS>'\<close>.
\<close>

theorem translate_bounded:
  "(\<forall>ws. translate R G self fwords = Inr ws \<longrightarrow> length ws \<le> 100 \<and> ''<EOS>'' \<notin> set ws) \<and>
   (comprehension (numberize (global_fvocab G)) fwords = Inr fnums \<and>
    sequence (enc self) fnums = Inr fencs \<and>
    numberize (global_evocab G) ''<BOS>'' = Inr bos \<and>
    (\<forall>i<100. \<exists>w. greedy_word R (dec self) (global_evocab G) fencs i = Inr w) \<longrightarrow>
      translate R G self fwords =
        Inr (takeWhile (\<lambda>w. w \<noteq> ''<EOS>'')
               (map (\<lambda>i. projr (greedy_word R (dec self) (global_evocab G) fencs i)) [0..<100])))"
proof (intro conjI allI impI)
  fix ws
  assume "translate R G self fwords = Inr ws"
  then show "length ws \<le> 100" and "''<EOS>'' \<notin> set ws"
    by (simp_all add: translate_Inr)
next
  assume "comprehension (numberize (global_fvocab G)) fwords = Inr fnums \<and>
    sequence (enc self) fnums = Inr fencs \<and>
    numberize (global_evocab G) ''<BOS>'' = Inr bos \<and>
    (\<forall>i<100. \<exists>w. greedy_word R (dec self) (global_evocab G) fencs i = Inr w)"
  then show "translate R G self fwords =
        Inr (takeWhile (\<lambda>w. w \<noteq> ''<EOS>'')
               (map (\<lambda>i. projr (greedy_word R (dec self) (global_evocab G) fencs i)) [0..<100]))"
    by (elim conjE) (rule translate_greedy)
qed

theorem translate_bounded_witness:
  "comprehension (numberize (global_fvocab copy_globals)) [''i'', ''like'', ''sand'', ''<EOS>''] =
     Inr [3, 4, 5, 1] \<and>
   sequence (enc copy_model) [3, 4, 5, 1] = Inr [3, 4, 5, 1] \<and>
   numberize (global_evocab copy_globals) ''<BOS>'' = Inr 0 \<and>
   list_all (\<lambda>i. \<not> isl (greedy_word copy_runtime (dec copy_model) (global_evocab copy_globals)
                        [3, 4, 5, 1] i)) [0..<100] \<and>
   translate copy_runtime copy_globals copy_model [''i'', ''like'', ''sand'', ''<EOS>''] =
     Inr [''i'', ''like'', ''sand'']"
proof -
  let ?g = "greedy_word copy_runtime (dec copy_model) (global_evocab copy_globals) [3, 4, 5, 1]"
  have a: "comprehension (numberize (global_fvocab copy_globals))
             [''i'', ''like'', ''sand'', ''<EOS>''] = Inr [3, 4, 5, 1]"
    by code_simp
  have b: "sequence (enc copy_model) [3, 4, 5, 1] = Inr [3, 4, 5, 1]"
    by code_simp
  have c: "numberize (global_evocab copy_globals) ''<BOS>'' = Inr 0"
    by code_simp
  have d: "list_all (\<lambda>i. \<not> isl (?g i)) [0..<100]"
    by code_simp
  have d': "\<forall>i<100. \<exists>w. ?g i = Inr w"
  proof (intro allI impI)
    fix i :: nat
    assume "i < 100"
    then have "i \<in> set [0..<100]" by (simp only: set_upt atLeastLessThan_iff le0 simp_thms)
    with d [unfolded list_all_iff] have "\<not> isl (?g i)" by (rule bspec)
    then show "\<exists>w. ?g i = Inr w" by (cases "?g i") simp_all
  qed
  have e: "takeWhile (\<lambda>w. w \<noteq> ''<EOS>'') (map (\<lambda>i. projr (?g i)) [0..<100]) =
           [''i'', ''like'', ''sand'']"
    by code_simp
  have "translate copy_runtime copy_globals copy_model [''i'', ''like'', ''sand'', ''<EOS>''] =
          Inr (takeWhile (\<lambda>w. w \<noteq> ''<EOS>'') (map (\<lambda>i. projr (?g i)) [0..<100]))"
    by (rule translate_bounded [of copy_runtime copy_globals copy_model
          "[''i'', ''like'', ''sand'', ''<EOS>'']" "[3, 4, 5, 1]" "[3, 4, 5, 1]" 0,
          THEN conjunct2, THEN mp]) (intro conjI a b c d')
  then have f: "translate copy_runtime copy_globals copy_model [''i'', ''like'', ''sand'', ''<EOS>''] =
          Inr [''i'', ''like'', ''sand'']"
    unfolding e .
  from a b c d f show ?thesis by (intro conjI)
qed

text \<open>
  C10. \<open>Model.logprob\<close> and \<open>Model.translate\<close> read the vocabularies of the module, never
  the fields \<open>fvocab\<close> and \<open>evocab\<close> of the model: two models with the same encoder and
  decoder give the same results under the same module variables, whatever their
  vocabulary fields hold.
\<close>

theorem vocab_fields_unused:
  assumes "enc m1 = enc m2" and "dec m1 = dec m2"
  shows "logprob R G m1 fwords ewords = logprob R G m2 fwords ewords \<and>
         translate R G m1 fwords = translate R G m2 fwords"
  unfolding logprob_def logprob_run_def translate_def translate_run_def assms by simp

theorem vocab_fields_unused_witness:
  "enc (copy_model\<lparr>fvocab := Vocab_init [''<UNK>'', ''<EOS>'', ''<BOS>''], evocab := Vocab_init []\<rparr>) = enc copy_model \<and>
   dec (copy_model\<lparr>fvocab := Vocab_init [''<UNK>'', ''<EOS>'', ''<BOS>''], evocab := Vocab_init []\<rparr>) = dec copy_model \<and>
   logprob copy_runtime copy_globals
     (copy_model\<lparr>fvocab := Vocab_init [''<UNK>'', ''<EOS>'', ''<BOS>''], evocab := Vocab_init []\<rparr>)
     [''sand'', ''<EOS>''] [''sand'', ''<EOS>''] =
   logprob copy_runtime copy_globals copy_model [''sand'', ''<EOS>''] [''sand'', ''<EOS>''] \<and>
   translate copy_runtime copy_globals
     (copy_model\<lparr>fvocab := Vocab_init [''<UNK>'', ''<EOS>'', ''<BOS>''], evocab := Vocab_init []\<rparr>)
     [''sand'', ''<EOS>''] =
   translate copy_runtime copy_globals copy_model [''sand'', ''<EOS>'']"
  using vocab_fields_unused [of
      "copy_model\<lparr>fvocab := Vocab_init [''<UNK>'', ''<EOS>'', ''<BOS>''], evocab := Vocab_init []\<rparr>"
      copy_model copy_runtime copy_globals "[''sand'', ''<EOS>'']" "[''sand'', ''<EOS>'']"]
  by simp

section \<open>Properties of the training loop\<close>

lemma run_epochs_Suc:
  "run_epochs train dev m (Suc n) =
     (train n (fst (run_epochs train dev m n)),
      select (snd (run_epochs train dev m n)) (train n (fst (run_epochs train dev m n)))
        (dev (train n (fst (run_epochs train dev m n)))))"
  by (simp add: Let_def split: prod.splits)

declare run_epochs.simps(2) [simp del]

lemma dev_losses_Suc:
  "dev_losses train dev m (Suc n) =
     dev_losses train dev m n @ [dev (fst (run_epochs train dev m (Suc n)))]"
  by (simp add: dev_losses_def)

lemma numbers_append: "numbers (xs @ ys) = numbers xs @ numbers ys"
  by (induction xs rule: numbers.induct) simp_all

lemma best_some:
  "\<exists>l b. best_dev_loss (snd (run_epochs train dev m (Suc n))) = Some l \<and>
         best_model (snd (run_epochs train dev m (Suc n))) = Some b \<and> dev b = l"
proof (induction n)
  case 0
  show ?case by (simp add: run_epochs_Suc select_def)
next
  case (Suc n)
  then show ?case
    unfolding run_epochs_Suc [of train dev m "Suc n"] by (auto simp: select_def)
qed

lemma best_none: "best_dev_loss (snd (run_epochs train dev m n)) = None \<longleftrightarrow> n = 0"
  using best_some [of train dev m "n - 1"] by (cases n) auto

lemma selection:
  "snd (run_epochs train dev m (Suc n)) =
     (if n = 0 \<or> float_less (dev (fst (run_epochs train dev m (Suc n))))
                    (the (best_dev_loss (snd (run_epochs train dev m n))))
      then \<lparr>best_model = Some (fst (run_epochs train dev m (Suc n))),
            best_dev_loss = Some (dev (fst (run_epochs train dev m (Suc n))))\<rparr>
      else snd (run_epochs train dev m n))"
  unfolding run_epochs_Suc [of train dev m n] using best_none [of train dev m n]
  by (simp add: select_def)

lemma float_less_irrefl: "\<not> float_less x x"
  by (cases x) simp_all

lemma float_less_asym: "float_less x y \<Longrightarrow> \<not> float_less y x"
  by (cases x; cases y) simp_all

lemma not_increasing:
  "\<not> float_less (the (best_dev_loss (snd (run_epochs train dev m (Suc n)))))
       (the (best_dev_loss (snd (run_epochs train dev m (Suc (Suc n))))))"
proof -
  let ?old = "the (best_dev_loss (snd (run_epochs train dev m (Suc n))))"
  let ?new = "dev (fst (run_epochs train dev m (Suc (Suc n))))"
  show ?thesis
    unfolding selection [of train dev m "Suc n"]
    by (simp add: float_less_irrefl float_less_asym)
qed

lemma best_min:
  assumes "dev (fst (run_epochs train dev m (Suc 0))) \<noteq> NaN"
  shows "best_dev_loss (snd (run_epochs train dev m (Suc n))) =
           Some (Num (Min (set (numbers (dev_losses train dev m (Suc n))))))"
proof (induction n)
  case 0
  from assms obtain a where "dev (fst (run_epochs train dev m (Suc 0))) = Num a"
    by (cases "dev (fst (run_epochs train dev m (Suc 0)))") simp_all
  then show ?case
    unfolding selection [of train dev m 0] by (simp add: dev_losses_def)
next
  case (Suc n)
  let ?L = "set (numbers (dev_losses train dev m (Suc n)))"
  let ?new = "dev (fst (run_epochs train dev m (Suc (Suc n))))"
  from assms obtain a where a: "dev (fst (run_epochs train dev m (Suc 0))) = Num a"
    by (cases "dev (fst (run_epochs train dev m (Suc 0)))") simp_all
  have "a \<in> ?L"
    using a by (simp add: dev_losses_def upt_conv_Cons del: upt_Suc)
  then have ne: "?L \<noteq> {}" and fin: "finite ?L" by auto
  show ?case
  proof (cases ?new)
    case NaN
    then show ?thesis
      unfolding selection [of train dev m "Suc n"]
        dev_losses_Suc [of train dev m "Suc n"] numbers_append
      using Suc.IH by simp
  next
    case (Num b)
    have "Min (insert b ?L) = min b (Min ?L)"
      using fin ne by simp
    with Num show ?thesis
      unfolding selection [of train dev m "Suc n"]
        dev_losses_Suc [of train dev m "Suc n"] numbers_append
      using Suc.IH by (auto simp: min_def)
  qed
qed

text \<open>
  C9, as stated, fails when the first epoch's held-out loss is NaN: \<open>best_dev_loss\<close>
  becomes NaN, no later loss compares below it, and after ten epochs the stored
  snapshot is still that of the first epoch, although the losses 5, 3, ..., 1 were
  observed.
\<close>

theorem checkpoint_nan_counterexample:
  "dev_losses count_epoch nan_first_loss 0 10 =
     [NaN, Num 5, Num 3, Num 4, Num 3, Num 6, Num 2, Num 2, Num 7, Num 1] \<and>
   snd (training count_epoch nan_first_loss 0) =
     \<lparr>best_model = Some 1, best_dev_loss = Some NaN\<rparr> \<and>
   nan_first_loss 1 = NaN \<and>
   Min (set (numbers (dev_losses count_epoch nan_first_loss 0 10))) = 1"
  by code_simp

text \<open>
  C9, amended. After epoch \<open>n + 1\<close>, the checkpoint is a new snapshot of the current
  model with its held-out loss exactly when this is the first epoch or the loss
  compares strictly below the best so far, and is unchanged otherwise; \<open>best_dev_loss\<close>
  after the next epoch does not compare above the one before; the stored
  \<open>best_dev_loss\<close> is the held-out loss of the stored \<open>best_model\<close>; and when the first
  epoch's held-out loss is not NaN, it is the minimum of the held-out losses seen so far
  that are numbers.
\<close>

theorem checkpoint_selection:
  "snd (run_epochs train dev m (Suc n)) =
     (if n = 0 \<or> float_less (dev (fst (run_epochs train dev m (Suc n))))
                    (the (best_dev_loss (snd (run_epochs train dev m n))))
      then \<lparr>best_model = Some (fst (run_epochs train dev m (Suc n))),
            best_dev_loss = Some (dev (fst (run_epochs train dev m (Suc n))))\<rparr>
      else snd (run_epochs train dev m n)) \<and>
   \<not> float_less (the (best_dev_loss (snd (run_epochs train dev m (Suc n)))))
       (the (best_dev_loss (snd (run_epochs train dev m (Suc (Suc n)))))) \<and>
   (\<exists>l b. best_dev_loss (snd (run_epochs train dev m (Suc n))) = Some l \<and>
          best_model (snd (run_epochs train dev m (Suc n))) = Some b \<and> dev b = l) \<and>
   (dev (fst (run_epochs train dev m (Suc 0))) \<noteq> NaN \<longrightarrow>
      best_dev_loss (snd (run_epochs train dev m (Suc n))) =
        Some (Num (Min (set (numbers (dev_losses train dev m (Suc n)))))))"
  using selection [of train dev m n] not_increasing [of train dev m n]
    best_some [of train dev m n] best_min [of dev train m n]
  by blast

theorem checkpoint_selection_witness:
  "dev_losses count_epoch table_loss 0 (Suc 3) = [Num 5, Num 3, NaN, Num 3] \<and>
   table_loss (fst (run_epochs count_epoch table_loss 0 (Suc 0))) \<noteq> NaN \<and>
   best_dev_loss (snd (run_epochs count_epoch table_loss 0 (Suc 3))) = Some (Num 3) \<and>
   snd (run_epochs count_epoch table_loss 0 (Suc 3)) =
     \<lparr>best_model = Some 2, best_dev_loss = Some (Num 3)\<rparr> \<and>
   snd (training count_epoch table_loss 0) =
     \<lparr>best_model = Some 9, best_dev_loss = Some (Num 1)\<rparr>"
proof -
  have a: "snd (training count_epoch table_loss 0) =
             \<lparr>best_model = Some 9, best_dev_loss = Some (Num 1)\<rparr>"
    by code_simp
  have b: "snd (run_epochs count_epoch table_loss 0 (Suc 3)) =
             \<lparr>best_model = Some 2, best_dev_loss = Some (Num 3)\<rparr>"
    by code_simp
  have c: "dev_losses count_epoch table_loss 0 (Suc 3) = [Num 5, Num 3, NaN, Num 3]"
    by code_simp
  have d: "table_loss (fst (run_epochs count_epoch table_loss 0 (Suc 0))) \<noteq> NaN"
    by code_simp
  from checkpoint_selection [of count_epoch table_loss 0 3, THEN conjunct2, THEN conjunct2,
      THEN conjunct2, THEN mp, OF d]
  have "best_dev_loss (snd (run_epochs count_epoch table_loss 0 (Suc 3))) = Some (Num 3)"
    unfolding c by simp
  with a b c d show ?thesis by simp
qed

end
